theory Spec2Isabelle
  imports Main "HOL-Library.Word"
begin

section \<open>The chunk id encoder of hub/core/meta/encode/chunk_id.py\<close>

text \<open>
  \<^verbatim>\<open>ChunkIdEncoder\<close> keeps a two-column array \<^verbatim>\<open>_encoded\<close> of rows
  \<^verbatim>\<open>[chunk_id, last_index]\<close>, both columns of the unsigned type
  \<^verbatim>\<open>ENCODING_DTYPE\<close>. Python integers are \<open>int\<close>, exceptions are values of
  \<open>error\<close>, and a method that mutates the encoder returns the encoder it leaves behind.
  The base class \<^verbatim>\<open>Encoder\<close>, the constants and the serialization codec live in
  other modules; what the encoder needs of them is modelled from the specification and
  marked so.
\<close>

subsection \<open>Data\<close>

datatype error = ValueError | ChunkIdEncoderError | IndexError | TypeError | FormatError

text \<open>Modelled from the spec: the type \<^verbatim>\<open>ENCODING_DTYPE\<close> of hub.constants is missing;
  the spec has the value of a row as a 64-bit unsigned integer and both columns of the
  same unsigned type, and the docstrings of the source speak of 64-bit ids.\<close>

type_synonym dtype = "64 word"

type_synonym row = "dtype \<times> dtype"

record ChunkIdEncoder =
  encoded :: "row list"

text \<open>\<^verbatim>\<open>CHUNK_ID_INDEX = 0\<close> selects the first column; the base class's
  \<^verbatim>\<open>last_index_index\<close> selects the bound, the other column of a row.\<close>

definition chunk_id_of :: "row \<Rightarrow> dtype" where
  "chunk_id_of r = fst r"

definition last_index_of :: "row \<Rightarrow> dtype" where
  "last_index_of r = snd r"

text \<open>\<^verbatim>\<open>ENCODING_DTYPE(n)\<close> and \<^verbatim>\<open>np.array(..., dtype=ENCODING_DTYPE)\<close> on a
  Python integer: the value is reduced to the 64 bits of the type. The source relies on it
  when it stores \<^verbatim>\<open>-1\<close> as the bound of the first row.\<close>

definition ENCODING_DTYPE :: "int \<Rightarrow> dtype" where
  "ENCODING_DTYPE n = word_of_int n"

text \<open>Modelled from the spec: the constant \<^verbatim>\<open>UUID_SHIFT_AMOUNT\<close> of hub.constants is
  missing; the spec has the 128 bits of the random source shifted down to 64.\<close>

definition UUID_SHIFT_AMOUNT :: nat where
  "UUID_SHIFT_AMOUNT = 64"

text \<open>Modelled from the spec: the constructor of the base class \<^verbatim>\<open>Encoder\<close> is missing;
  the table starts empty.\<close>

definition new_encoder :: ChunkIdEncoder where
  "new_encoder = \<lparr>encoded = []\<rparr>"

text \<open>Modelled from the spec: the property \<^verbatim>\<open>num_samples\<close> of the base class
  \<^verbatim>\<open>Encoder\<close> is missing. It is the \<^verbatim>\<open>last_index\<close> of the final row plus one, or 0
  for an empty table, as a Python integer. The bound is read as the unsigned value that is
  stored and the addition is Python's, so the sentinel row \<^verbatim>\<open>[id, -1]\<close> does not
  count as 0: the source needs that, since \<^verbatim>\<open>num_chunks\<close> is documented to be 1 right
  after \<^verbatim>\<open>generate_chunk_id\<close> and \<^verbatim>\<open>_validate_incoming_item\<close> rejects every
  registration while \<^verbatim>\<open>num_samples\<close> is 0.\<close>

definition num_samples :: "ChunkIdEncoder \<Rightarrow> int" where
  "num_samples e =
     (if encoded e = [] then 0 else uint (last_index_of (last (encoded e))) + 1)"

definition num_chunks :: "ChunkIdEncoder \<Rightarrow> int" where
  "num_chunks e = (if num_samples e = 0 then 0 else int (length (encoded e)))"

subsection \<open>Generating chunk ids\<close>

text \<open>The 128-bit draw \<^verbatim>\<open>uuid4().int\<close> is the argument \<open>uuid\<close>. The result is the id and
  the encoder after the call.\<close>

definition generate_chunk_id :: "ChunkIdEncoder \<Rightarrow> int \<Rightarrow> dtype \<times> ChunkIdEncoder" where
  "generate_chunk_id e uuid =
     (let id = ENCODING_DTYPE (drop_bit UUID_SHIFT_AMOUNT uuid) in
      if num_samples e = 0
      then (id, e\<lparr>encoded := [(id, ENCODING_DTYPE (- 1))]\<rparr>)
      else
        (let last_index = num_samples e - 1;
             new_entry = [(id, ENCODING_DTYPE last_index)]
         in (id, e\<lparr>encoded := encoded e @ new_entry\<rparr>)))"

subsection \<open>Registering samples\<close>

text \<open>\<^verbatim>\<open>_validate_incoming_item\<close>: the three checks in the order of the source; \<open>None\<close>
  when none of them raises. The first argument of the source is ignored.\<close>

definition validate_incoming_item :: "ChunkIdEncoder \<Rightarrow> int \<Rightarrow> error option" where
  "validate_incoming_item e n =
     (if n < 0 then Some ValueError
      else if num_samples e = 0 then Some ChunkIdEncoderError
      else if n = 0 \<and> num_chunks e < 2 then Some ChunkIdEncoderError
      else None)"

definition combine_condition :: bool where
  "combine_condition = True"

text \<open>numpy's handling of integer overflow is a global mode set by \<^verbatim>\<open>np.seterr\<close>. An
  addition of two \<^verbatim>\<open>ENCODING_DTYPE\<close> scalars always yields the wrapped sum; when the
  exact sum does not fit, the mode decides whether that is passed over in silence, reported
  as a warning, or raised.\<close>

datatype np_over = over_ignore | over_warn | over_raise

datatype np_signal = Silent | Warned | Raised

definition np_add :: "np_over \<Rightarrow> dtype \<Rightarrow> dtype \<Rightarrow> dtype \<times> np_signal" where
  "np_add mode a b =
     (a + b,
      if uint a + uint b < 2 ^ 64 then Silent
      else (case mode of over_ignore \<Rightarrow> Silent | over_warn \<Rightarrow> Warned | over_raise \<Rightarrow> Raised))"

text \<open>\<^verbatim>\<open>_derive_next_last_index\<close>: the new bound, the signal of the addition, and the
  overflow mode the call leaves behind.\<close>

definition derive_next_last_index :: "dtype \<Rightarrow> int \<Rightarrow> dtype \<times> np_signal \<times> np_over" where
  "derive_next_last_index last_index n =
     (let mode = over_ignore;
          (new_last_index, signal) = np_add mode last_index (ENCODING_DTYPE n);
          mode = over_warn
      in (new_last_index, signal, mode))"

text \<open>Modelled from the spec: \<^verbatim>\<open>Encoder.register_samples\<close> of the base class is missing.
  It calls the validation hook before it changes anything; then, the combine condition
  holding, it replaces the bound of the last row by what \<^verbatim>\<open>_derive_next_last_index\<close>
  gives. Appending a row instead would need a value for it, and the chunk id encoder passes
  \<^verbatim>\<open>None\<close>.\<close>

definition Encoder_register_samples :: "ChunkIdEncoder \<Rightarrow> int \<Rightarrow> error option \<times> ChunkIdEncoder" where
  "Encoder_register_samples e n =
     (case validate_incoming_item e n of
        Some err \<Rightarrow> (Some err, e)
      | None \<Rightarrow>
          if combine_condition
          then
            (let last_index = last_index_of (last (encoded e));
                 new_last_index = fst (derive_next_last_index last_index n)
             in (None, e\<lparr>encoded :=
                   butlast (encoded e) @ [(chunk_id_of (last (encoded e)), new_last_index)]\<rparr>))
          else (Some TypeError, e))"

definition register_samples :: "ChunkIdEncoder \<Rightarrow> int \<Rightarrow> error option \<times> ChunkIdEncoder" where
  "register_samples e n = Encoder_register_samples e n"

subsection \<open>Looking up a sample index\<close>

text \<open>\<^verbatim>\<open>np.searchsorted(a, v)\<close>, the binary search of the lookup: the loop keeps
  \<open>lo \<le> hi\<close>, probes the middle and ends with \<open>lo\<close>.\<close>

function searchsorted_loop :: "int list \<Rightarrow> int \<Rightarrow> nat \<Rightarrow> nat \<Rightarrow> nat" where
  "searchsorted_loop a v lo hi =
     (if lo < hi
      then (let mid = lo + (hi - lo) div 2 in
            if a ! mid < v then searchsorted_loop a v (mid + 1) hi
            else searchsorted_loop a v lo mid)
      else lo)"
  by pat_completeness auto
termination
  by (relation "measure (\<lambda>(a, v, lo, hi). hi - lo)") auto

declare searchsorted_loop.simps [simp del]

definition searchsorted :: "int list \<Rightarrow> int \<Rightarrow> nat" where
  "searchsorted a v = searchsorted_loop a v 0 (length a)"

definition last_index_column :: "ChunkIdEncoder \<Rightarrow> int list" where
  "last_index_column e = map (\<lambda>r. uint (last_index_of r)) (encoded e)"

definition derive_value :: "row \<Rightarrow> dtype" where
  "derive_value r = chunk_id_of r"

text \<open>Modelled from the spec: \<^verbatim>\<open>Encoder.__getitem__\<close> of the base class (the spec's
  \<^verbatim>\<open>lookup\<close>) is missing. It fails with an out-of-range error if the index is negative
  or at least the number of covered units; otherwise it searches the \<^verbatim>\<open>last_index\<close>
  column by binary search and returns the value derived from the row found, with the row
  index. Reading a row that is not there is numpy's IndexError.\<close>

definition getitem :: "ChunkIdEncoder \<Rightarrow> int \<Rightarrow> error + (dtype \<times> nat)" where
  "getitem e i =
     (if i < 0 \<or> num_samples e \<le> i then Inl IndexError
      else
        (let row_index = searchsorted (last_index_column e) i in
         if row_index < length (encoded e)
         then Inr (derive_value (encoded e ! row_index), row_index)
         else Inl IndexError))"

text \<open>Modelled from the spec: \<^verbatim>\<open>get_chunk_id\<close> is the lookup returning only the value.\<close>

definition get_chunk_id :: "ChunkIdEncoder \<Rightarrow> int \<Rightarrow> error + dtype" where
  "get_chunk_id e i = (case getitem e i of Inl err \<Rightarrow> Inl err | Inr (v, _) \<Rightarrow> Inr v)"

definition get_local_sample_index :: "ChunkIdEncoder \<Rightarrow> int \<Rightarrow> error + int" where
  "get_local_sample_index e global_sample_index =
     (case getitem e global_sample_index of
        Inl err \<Rightarrow> Inl err
      | Inr (_, chunk_index) \<Rightarrow>
          if chunk_index = 0 then Inr global_sample_index
          else
            (let current_entry = encoded e ! (chunk_index - 1);
                 last_num_samples = uint (last_index_of current_entry) + 1
             in Inr (global_sample_index - last_num_samples)))"

text \<open>The logical range of row \<open>k\<close>: from one past the bound of the row before (from 0 for
  the first row) up to its own bound.\<close>

definition range_start :: "ChunkIdEncoder \<Rightarrow> nat \<Rightarrow> int" where
  "range_start e k = (if k = 0 then 0 else uint (last_index_of (encoded e ! (k - 1))) + 1)"

definition range_end :: "ChunkIdEncoder \<Rightarrow> nat \<Rightarrow> int" where
  "range_end e k = uint (last_index_of (encoded e ! k))"

definition ascending :: "ChunkIdEncoder \<Rightarrow> bool" where
  "ascending e = sorted (last_index_column e)"

definition strictly_ascending :: "ChunkIdEncoder \<Rightarrow> bool" where
  "strictly_ascending e = sorted_wrt (<) (last_index_column e)"

subsection \<open>Names\<close>

text \<open>Python's \<^verbatim>\<open>hex\<close>: a sign, the prefix \<^verbatim>\<open>0x\<close> and the lower-case digits of the
  magnitude, without leading zeros.\<close>

definition hex_digit :: "nat \<Rightarrow> char" where
  "hex_digit d = (if d < 10 then char_of (48 + d) else char_of (87 + d))"

fun hex_nat :: "nat \<Rightarrow> string" where
  "hex_nat n = (if n < 16 then [hex_digit n] else hex_nat (n div 16) @ [hex_digit (n mod 16)])"

declare hex_nat.simps [simp del]

definition hex :: "int \<Rightarrow> string" where
  "hex n = (if n < 0 then ''-0x'' @ hex_nat (nat (- n)) else ''0x'' @ hex_nat (nat n))"

text \<open>Python's \<^verbatim>\<open>int(s, 16)\<close> on a string of ASCII characters: white space around the
  number is dropped, a sign may come first, then the prefix \<^verbatim>\<open>0x\<close> or \<^verbatim>\<open>0X\<close> may
  follow, with one underscore allowed after it; the digits, of either case, may be
  separated by single underscores. Anything else is a ValueError.\<close>

definition py_isspace :: "char \<Rightarrow> bool" where
  "py_isspace c = (let k = (of_char c :: nat) in (9 \<le> k \<and> k \<le> 13) \<or> (28 \<le> k \<and> k \<le> 32))"

definition py_strip :: "string \<Rightarrow> string" where
  "py_strip s = rev (dropWhile py_isspace (rev (dropWhile py_isspace s)))"

definition digit_value :: "char \<Rightarrow> nat option" where
  "digit_value c =
     (let k = (of_char c :: nat) in
      if 48 \<le> k \<and> k \<le> 57 then Some (k - 48)
      else if 97 \<le> k \<and> k \<le> 102 then Some (k - 87)
      else if 65 \<le> k \<and> k \<le> 70 then Some (k - 55)
      else None)"

text \<open>The scan of the digits: \<open>us\<close> tells that the character before was an underscore.\<close>

fun scan_digits :: "bool \<Rightarrow> nat \<Rightarrow> string \<Rightarrow> nat option" where
  "scan_digits us acc [] = (if us then None else Some acc)"
| "scan_digits us acc (c # cs) =
     (if c = CHR ''_'' then (if us then None else scan_digits True acc cs)
      else (case digit_value c of
              None \<Rightarrow> None
            | Some d \<Rightarrow> scan_digits False (16 * acc + d) cs))"

definition skip_sign :: "string \<Rightarrow> bool \<times> string" where
  "skip_sign s =
     (case s of
        c # cs \<Rightarrow> if c = CHR ''-'' then (True, cs) else if c = CHR ''+'' then (False, cs)
                  else (False, s)
      | [] \<Rightarrow> (False, s))"

definition skip_prefix :: "string \<Rightarrow> string" where
  "skip_prefix s =
     (case s of
        c # d # cs \<Rightarrow>
          if c = CHR ''0'' \<and> (d = CHR ''x'' \<or> d = CHR ''X'')
          then (case cs of u # ds \<Rightarrow> if u = CHR ''_'' then ds else cs | [] \<Rightarrow> cs)
          else s
      | _ \<Rightarrow> s)"

definition int_base16 :: "string \<Rightarrow> error + int" where
  "int_base16 s =
     (let (negative, s1) = skip_sign (py_strip s);
          digits = skip_prefix s1
      in case digits of
           [] \<Rightarrow> Inl ValueError
         | c # _ \<Rightarrow>
             if c = CHR ''_'' then Inl ValueError
             else (case scan_digits False 0 digits of
                     None \<Rightarrow> Inl ValueError
                   | Some v \<Rightarrow> Inr (if negative then - int v else int v)))"

text \<open>\<^verbatim>\<open>name_from_id\<close> takes whatever \<^verbatim>\<open>hex\<close> takes; an id of the table is passed as
  its unsigned value. \<^verbatim>\<open>id_from_name\<close> returns the Python integer that \<^verbatim>\<open>int\<close> gives.\<close>

definition name_from_id :: "int \<Rightarrow> string" where
  "name_from_id ident = drop 2 (hex ident)"

definition id_from_name :: "string \<Rightarrow> error + int" where
  "id_from_name name = int_base16 (''0x'' @ name)"

text \<open>Indexing a one-dimensional numpy array with a Python integer: a negative index counts
  from the end, and an index outside the array on either side is an IndexError.\<close>

definition np_index :: "'a list \<Rightarrow> int \<Rightarrow> error + 'a" where
  "np_index xs i =
     (if 0 \<le> i \<and> i < int (length xs) then Inr (xs ! nat i)
      else if i < 0 \<and> - int (length xs) \<le> i then Inr (xs ! nat (i + int (length xs)))
      else Inl IndexError)"

definition get_name_for_chunk :: "ChunkIdEncoder \<Rightarrow> int \<Rightarrow> error + string" where
  "get_name_for_chunk e chunk_index =
     (case np_index (map chunk_id_of (encoded e)) chunk_index of
        Inl err \<Rightarrow> Inl err
      | Inr chunk_id \<Rightarrow> Inr (name_from_id (uint chunk_id)))"

subsection \<open>Serialization\<close>

type_synonym byte = "8 word"

text \<open>Modelled from the spec: the codec \<^verbatim>\<open>serialize_chunkids\<close> and
  \<^verbatim>\<open>deserialize_chunkids\<close> of hub.core.serialize is missing. The buffer is a version tag
  followed by the rows as a flat sequence of fixed-width integers in row-major order, two
  columns per row, both of the same unsigned type; an empty table serializes to an empty
  buffer; a buffer whose rows do not come out in whole rows is a format error. The spec
  leaves open how the tag is delimited and the byte order: the tag is taken with its length
  in front, in one byte, and an integer is written in 8 bytes, the lowest first.\<close>

primrec le_bytes :: "nat \<Rightarrow> nat \<Rightarrow> byte list" where
  "le_bytes 0 v = []"
| "le_bytes (Suc k) v = of_nat (v mod 256) # le_bytes k (v div 256)"

primrec from_le_bytes :: "byte list \<Rightarrow> nat" where
  "from_le_bytes [] = 0"
| "from_le_bytes (b # bs) = unat b + 256 * from_le_bytes bs"

definition int_to_bytes :: "dtype \<Rightarrow> byte list" where
  "int_to_bytes w = le_bytes 8 (unat w)"

definition int_from_bytes :: "byte list \<Rightarrow> dtype" where
  "int_from_bytes bs = of_nat (from_le_bytes bs)"

definition row_to_bytes :: "row \<Rightarrow> byte list" where
  "row_to_bytes r = int_to_bytes (chunk_id_of r) @ int_to_bytes (last_index_of r)"

definition row_from_bytes :: "byte list \<Rightarrow> row" where
  "row_from_bytes bs = (int_from_bytes (take 8 bs), int_from_bytes (take 8 (drop 8 bs)))"

primrec rows_from_bytes :: "nat \<Rightarrow> byte list \<Rightarrow> row list" where
  "rows_from_bytes 0 bs = []"
| "rows_from_bytes (Suc k) bs = row_from_bytes (take 16 bs) # rows_from_bytes k (drop 16 bs)"

definition version_tag :: "string \<Rightarrow> byte list" where
  "version_tag version = of_nat (length version) # map (\<lambda>c. of_nat (of_char c)) version"

definition serialize_chunkids :: "string \<Rightarrow> row list \<Rightarrow> byte list" where
  "serialize_chunkids version ids =
     (if ids = [] then [] else version_tag version @ concat (map row_to_bytes ids))"

definition deserialize_chunkids :: "byte list \<Rightarrow> error + (string \<times> row list)" where
  "deserialize_chunkids buffer =
     (case buffer of
        [] \<Rightarrow> Inl FormatError
      | b # rest \<Rightarrow>
          if length rest < unat b then Inl FormatError
          else
            (let version = map (\<lambda>c. char_of (unat c)) (take (unat b) rest);
                 body = drop (unat b) rest
             in if length body mod 16 \<noteq> 0 then Inl FormatError
                else Inr (version, rows_from_bytes (length body div 16) body)))"

definition nbytes :: "row list \<Rightarrow> nat" where
  "nbytes ids = 16 * length ids"

text \<open>\<^verbatim>\<open>tobytes\<close>; the version string \<^verbatim>\<open>hub.__version__\<close> is an argument.\<close>

definition tobytes :: "string \<Rightarrow> ChunkIdEncoder \<Rightarrow> byte list" where
  "tobytes version e = serialize_chunkids version (encoded e)"

definition frombuffer :: "byte list \<Rightarrow> error + ChunkIdEncoder" where
  "frombuffer buffer =
     (let instance = new_encoder in
      if buffer = [] then Inr instance
      else (case deserialize_chunkids buffer of
              Inl err \<Rightarrow> Inl err
            | Inr (version, ids) \<Rightarrow>
                if nbytes ids \<noteq> 0 then Inr (instance\<lparr>encoded := ids\<rparr>) else Inr instance))"

subsection \<open>Sequences of calls\<close>

text \<open>A caller's sequence of \<^verbatim>\<open>generate_chunk_id\<close> and \<^verbatim>\<open>register_samples\<close> calls,
  run from a given encoder until a call raises.\<close>

datatype call = Generate int | Register int

definition apply_call :: "ChunkIdEncoder \<Rightarrow> call \<Rightarrow> error option \<times> ChunkIdEncoder" where
  "apply_call e c =
     (case c of
        Generate uuid \<Rightarrow> (None, snd (generate_chunk_id e uuid))
      | Register n \<Rightarrow> register_samples e n)"

fun run :: "ChunkIdEncoder \<Rightarrow> call list \<Rightarrow> error option \<times> ChunkIdEncoder" where
  "run e [] = (None, e)"
| "run e (c # cs) =
     (case apply_call e c of
        (Some err, e') \<Rightarrow> (Some err, e')
      | (None, e') \<Rightarrow> run e' cs)"




section \<open>Properties\<close>

subsection \<open>Basic facts\<close>

lemma num_samples_pos: "encoded e \<noteq> [] \<Longrightarrow> 0 < num_samples e"
  by (simp add: num_samples_def add_pos_nonneg)

lemma num_samples_zero_iff: "num_samples e = 0 \<longleftrightarrow> encoded e = []"
proof
  assume "num_samples e = 0"
  then show "encoded e = []"
    using num_samples_pos [of e] by (cases "encoded e = []") simp_all
next
  assume "encoded e = []"
  then show "num_samples e = 0" by (simp add: num_samples_def)
qed

lemma num_chunks_length: "num_chunks e = int (length (encoded e))"
  by (simp add: num_chunks_def num_samples_zero_iff)

lemma validate_incoming_item_eq:
  "validate_incoming_item e n =
     (if n < 0 then Some ValueError
      else if encoded e = [] \<or> (n = 0 \<and> length (encoded e) < 2) then Some ChunkIdEncoderError
      else None)"
  by (auto simp: validate_incoming_item_def num_samples_zero_iff num_chunks_length)

lemma derive_next_last_index_eq:
  "derive_next_last_index l n = (l + ENCODING_DTYPE n, Silent, over_warn)"
  by (simp add: derive_next_last_index_def np_add_def)

lemma register_samples_eq:
  "register_samples e n =
     (case validate_incoming_item e n of
        Some err \<Rightarrow> (Some err, e)
      | None \<Rightarrow> (None, e\<lparr>encoded := butlast (encoded e) @
           [(chunk_id_of (last (encoded e)), last_index_of (last (encoded e)) + ENCODING_DTYPE n)]\<rparr>))"
  by (simp add: register_samples_def Encoder_register_samples_def combine_condition_def
      derive_next_last_index_eq Let_def split: option.splits)

subsection \<open>The binary search and the lookup\<close>

lemma searchsorted_loop_props:
  assumes "lo \<le> hi" and "hi \<le> length a"
    and "0 < lo \<longrightarrow> a ! (lo - 1) < v" and "hi < length a \<longrightarrow> v \<le> a ! hi"
  shows "lo \<le> searchsorted_loop a v lo hi \<and> searchsorted_loop a v lo hi \<le> hi
       \<and> (0 < searchsorted_loop a v lo hi \<longrightarrow> a ! (searchsorted_loop a v lo hi - 1) < v)
       \<and> (searchsorted_loop a v lo hi < length a \<longrightarrow> v \<le> a ! searchsorted_loop a v lo hi)"
  using assms
proof (induction a v lo hi rule: searchsorted_loop.induct)
  case (1 a v lo hi)
  show ?case
  proof (cases "lo < hi")
    case False
    with "1.prems"(1) have eq: "lo = hi" by simp
    have r: "searchsorted_loop a v lo hi = lo"
      using False by (subst searchsorted_loop.simps) simp
    show ?thesis
      unfolding r using "1.prems" eq by simp
  next
    case True
    define mid where "mid = lo + (hi - lo) div 2"
    have m: "lo \<le> mid" "mid < hi"
      using True by (simp_all add: mid_def)
    show ?thesis
    proof (cases "a ! mid < v")
      case less: True
      have r: "searchsorted_loop a v lo hi = searchsorted_loop a v (mid + 1) hi"
        using True less by (subst searchsorted_loop.simps) (simp add: mid_def Let_def)
      have ih: "mid + 1 \<le> searchsorted_loop a v (mid + 1) hi \<and> searchsorted_loop a v (mid + 1) hi \<le> hi
       \<and> (0 < searchsorted_loop a v (mid + 1) hi \<longrightarrow> a ! (searchsorted_loop a v (mid + 1) hi - 1) < v)
       \<and> (searchsorted_loop a v (mid + 1) hi < length a \<longrightarrow> v \<le> a ! searchsorted_loop a v (mid + 1) hi)"
        by (rule "1.IH"(1) [OF True mid_def less]) (use m "1.prems" less in simp_all)
      show ?thesis
        unfolding r using ih m by simp
    next
      case geq: False
      have r: "searchsorted_loop a v lo hi = searchsorted_loop a v lo mid"
        using True geq by (subst searchsorted_loop.simps) (simp add: mid_def Let_def)
      have ih: "lo \<le> searchsorted_loop a v lo mid \<and> searchsorted_loop a v lo mid \<le> mid
       \<and> (0 < searchsorted_loop a v lo mid \<longrightarrow> a ! (searchsorted_loop a v lo mid - 1) < v)
       \<and> (searchsorted_loop a v lo mid < length a \<longrightarrow> v \<le> a ! searchsorted_loop a v lo mid)"
        by (rule "1.IH"(2) [OF True mid_def geq]) (use m "1.prems" geq in simp_all)
      show ?thesis
        unfolding r using ih m by simp
    qed
  qed
qed

lemma searchsorted_props:
  "searchsorted a v \<le> length a
   \<and> (0 < searchsorted a v \<longrightarrow> a ! (searchsorted a v - 1) < v)
   \<and> (searchsorted a v < length a \<longrightarrow> v \<le> a ! searchsorted a v)"
  using searchsorted_loop_props [of 0 "length a" a v] by (simp add: searchsorted_def)

lemma searchsorted_in_range:
  assumes "a \<noteq> []" and "v \<le> last a"
  shows "searchsorted a v < length a"
proof (rule ccontr)
  assume "\<not> searchsorted a v < length a"
  with searchsorted_props [of a v] have r: "searchsorted a v = length a" by simp
  with assms(1) searchsorted_props [of a v] have "a ! (length a - 1) < v" by simp
  with assms show False by (simp add: last_conv_nth)
qed

lemma searchsorted_unique:
  assumes "sorted a" and "k < length a" and "v \<le> a ! k" and "0 < k \<longrightarrow> a ! (k - 1) < v"
  shows "searchsorted a v = k"
proof -
  let ?r = "searchsorted a v"
  note p = searchsorted_props [of a v]
  have "\<not> ?r < k"
  proof
    assume l: "?r < k"
    then have "?r \<le> k - 1" "k - 1 < length a" using assms(2) by simp_all
    then have "a ! ?r \<le> a ! (k - 1)" using assms(1) by (simp add: sorted_nth_mono)
    moreover from l assms(2) p have "v \<le> a ! ?r" by simp
    moreover from l assms(4) have "a ! (k - 1) < v" by simp
    ultimately show False by simp
  qed
  moreover have "\<not> k < ?r"
  proof
    assume g: "k < ?r"
    from p have "?r \<le> length a" by simp
    with g have "k \<le> ?r - 1" "?r - 1 < length a" by arith+
    then have "a ! k \<le> a ! (?r - 1)" using assms(1) by (simp add: sorted_nth_mono)
    moreover from g p have "a ! (?r - 1) < v" by simp
    ultimately show False using assms(3) by simp
  qed
  ultimately show ?thesis by simp
qed

lemma last_index_column_nth:
  "k < length (encoded e) \<Longrightarrow> last_index_column e ! k = uint (last_index_of (encoded e ! k))"
  by (simp add: last_index_column_def)

lemma length_last_index_column: "length (last_index_column e) = length (encoded e)"
  by (simp add: last_index_column_def)

lemma last_last_index_column:
  "encoded e \<noteq> [] \<Longrightarrow> last (last_index_column e) = num_samples e - 1"
  by (simp add: last_index_column_def num_samples_def last_map)

lemma getitem_valid:
  assumes "0 \<le> i" and "i < num_samples e"
  shows "searchsorted (last_index_column e) i < length (encoded e)
       \<and> getitem e i = Inr (chunk_id_of (encoded e ! searchsorted (last_index_column e) i),
                            searchsorted (last_index_column e) i)
       \<and> range_start e (searchsorted (last_index_column e) i) \<le> i
       \<and> i \<le> range_end e (searchsorted (last_index_column e) i)"
proof -
  let ?a = "last_index_column e" and ?r = "searchsorted (last_index_column e) i"
  from assms have ne: "encoded e \<noteq> []"
    by (auto simp: num_samples_def split: if_splits)
  then have "?a \<noteq> []" by (simp add: last_index_column_def)
  moreover have "i \<le> last ?a" using assms(2) ne by (simp add: last_last_index_column)
  ultimately have "?r < length ?a" by (rule searchsorted_in_range)
  then have r: "?r < length (encoded e)" by (simp add: length_last_index_column)
  note p = searchsorted_props [of ?a i]
  have g: "getitem e i = Inr (chunk_id_of (encoded e ! ?r), ?r)"
    using assms r by (simp add: getitem_def derive_value_def Let_def)
  have s: "range_start e ?r \<le> i"
  proof (cases "?r = 0")
    case True
    then show ?thesis using assms(1) by (simp add: range_start_def)
  next
    case False
    with p have "?a ! (?r - 1) < i" by simp
    moreover have "?r - 1 < length (encoded e)" using r by simp
    ultimately show ?thesis using False by (simp add: range_start_def last_index_column_nth)
  qed
  have t: "i \<le> range_end e ?r"
    using p r by (simp add: range_end_def last_index_column_nth length_last_index_column)
  from r g s t show ?thesis by simp
qed

lemma getitem_invalid: "i < 0 \<or> num_samples e \<le> i \<Longrightarrow> getitem e i = Inl IndexError"
  by (simp add: getitem_def)

lemma getitem_row:
  assumes "ascending e" and "k < length (encoded e)" and "range_start e k \<le> i" and "i \<le> range_end e k"
  shows "getitem e i = Inr (chunk_id_of (encoded e ! k), k)"
proof -
  let ?a = "last_index_column e"
  have ne: "encoded e \<noteq> []" using assms(2) by auto
  have s: "sorted ?a" using assms(1) by (simp add: ascending_def)
  have k: "k < length ?a" using assms(2) by (simp add: length_last_index_column)
  have up: "i \<le> ?a ! k" using assms(2,4) by (simp add: range_end_def last_index_column_nth)
  have lo: "0 < k \<longrightarrow> ?a ! (k - 1) < i"
    using assms(2,3) by (auto simp: range_start_def last_index_column_nth)
  have r: "searchsorted ?a i = k" by (rule searchsorted_unique [OF s k up lo])
  have "0 \<le> range_start e k" by (simp add: range_start_def)
  then have i0: "0 \<le> i" using assms(3) by simp
  have "?a ! k \<le> ?a ! (length ?a - 1)"
    using s k by (simp add: sorted_nth_mono)
  moreover have "?a \<noteq> []" using k by auto
  ultimately have "?a ! k \<le> last ?a" by (simp add: last_conv_nth)
  then have i1: "i < num_samples e" using up ne by (simp add: last_last_index_column)
  from getitem_valid [OF i0 i1] r show ?thesis by simp
qed

subsection \<open>Sequences of calls\<close>

lemma generate_chunk_id_rows:
  "encoded (snd (generate_chunk_id e uuid)) =
     (if encoded e = [] then [(ENCODING_DTYPE (drop_bit UUID_SHIFT_AMOUNT uuid), ENCODING_DTYPE (- 1))]
      else encoded e @ [(ENCODING_DTYPE (drop_bit UUID_SHIFT_AMOUNT uuid), last_index_of (last (encoded e)))])"
  by (simp add: generate_chunk_id_def Let_def num_samples_zero_iff)
    (simp add: num_samples_def ENCODING_DTYPE_def)



lemma uint_word_of_int_64: "uint (word_of_int k :: dtype) = k mod 2 ^ 64"
  by (simp add: uint_word_of_int_eq take_bit_eq_mod)





subsection \<open>Looking up chunk ids\<close>

text \<open>
  C4. \<^verbatim>\<open>get_chunk_id(i)\<close> fails with the out-of-range error exactly when \<open>i\<close> is
  negative or at least \<^verbatim>\<open>num_samples\<close>; in particular it fails at \<^verbatim>\<open>num_samples\<close>
  itself. For every \<open>i\<close> from 0 up to \<^verbatim>\<open>num_samples - 1\<close> it succeeds and returns the
  id of a row whose range contains \<open>i\<close>.
\<close>

theorem get_chunk_id_range:
  "(get_chunk_id e i = Inl IndexError \<longleftrightarrow> i < 0 \<or> num_samples e \<le> i)
   \<and> get_chunk_id e (num_samples e) = Inl IndexError
   \<and> (0 \<le> i \<and> i < num_samples e \<longrightarrow>
        (\<exists>k < length (encoded e).
           get_chunk_id e i = Inr (chunk_id_of (encoded e ! k))
           \<and> range_start e k \<le> i \<and> i \<le> range_end e k))"
proof -
  have bad: "get_chunk_id e j = Inl IndexError" if "j < 0 \<or> num_samples e \<le> j" for j
    using that by (simp add: get_chunk_id_def getitem_invalid)
  have good: "\<exists>k < length (encoded e).
           get_chunk_id e i = Inr (chunk_id_of (encoded e ! k))
           \<and> range_start e k \<le> i \<and> i \<le> range_end e k"
    if v: "0 \<le> i \<and> i < num_samples e"
  proof -
    from v have "0 \<le> i" "i < num_samples e" by simp_all
    note g = getitem_valid [OF this]
    let ?r = "searchsorted (last_index_column e) i"
    from g have "get_chunk_id e i = Inr (chunk_id_of (encoded e ! ?r))"
      by (simp add: get_chunk_id_def)
    with g show ?thesis by blast
  qed
  have iff: "get_chunk_id e i = Inl IndexError \<longleftrightarrow> i < 0 \<or> num_samples e \<le> i"
  proof
    assume f: "get_chunk_id e i = Inl IndexError"
    show "i < 0 \<or> num_samples e \<le> i"
    proof (rule ccontr)
      assume "\<not> (i < 0 \<or> num_samples e \<le> i)"
      then have "0 \<le> i \<and> i < num_samples e" by simp
      from good [OF this] f show False by auto
    qed
  next
    assume "i < 0 \<or> num_samples e \<le> i"
    then show "get_chunk_id e i = Inl IndexError" by (rule bad)
  qed
  have at: "get_chunk_id e (num_samples e) = Inl IndexError"
    by (rule bad) simp
  from iff at good show ?thesis by blast
qed

theorem get_chunk_id_range_witness:
  "(0::int) \<le> 10 \<and> 10 < num_samples \<lparr>encoded = [(7, 9), (9, 10)]\<rparr>
   \<and> get_chunk_id \<lparr>encoded = [(7, 9), (9, 10)]\<rparr> 10 \<noteq> Inl IndexError
   \<and> get_chunk_id \<lparr>encoded = [(7, 9), (9, 10)]\<rparr> 10 = Inr 9
   \<and> get_chunk_id \<lparr>encoded = [(7, 9), (9, 10)]\<rparr> 11 = Inl IndexError"
proof -
  have n: "num_samples \<lparr>encoded = [(7, 9), (9, 10)]\<rparr> = 11"
    by (simp add: num_samples_def last_index_of_def)
  have v: "get_chunk_id \<lparr>encoded = [(7, 9), (9, 10)]\<rparr> 10 = Inr 9"
    by code_simp
  from get_chunk_id_range [of "\<lparr>encoded = [(7, 9), (9, 10)]\<rparr>" 10] n v
  show ?thesis by simp
qed

subsection \<open>Local sample indices\<close>

text \<open>
  C3. For every valid global index \<open>i\<close>, \<^verbatim>\<open>get_local_sample_index(i)\<close> is \<open>i\<close> when the
  owning row is row 0 and otherwise \<open>i\<close> minus the bound of the row before plus one.
  Hence, in a table whose bounds ascend, for every chunk whose range runs from \<open>s\<close> to
  \<open>e\<close> the local index of \<open>s\<close> is 0 and the local index of \<open>e\<close> is \<open>e - s\<close>.
\<close>

theorem get_local_sample_index_rows:
  "(0 \<le> i \<and> i < num_samples e \<longrightarrow>
      (\<exists>k < length (encoded e).
         getitem e i = Inr (chunk_id_of (encoded e ! k), k)
         \<and> get_local_sample_index e i =
             Inr (if k = 0 then i else i - (uint (last_index_of (encoded e ! (k - 1))) + 1))))
   \<and> (ascending e \<and> k < length (encoded e) \<and> range_start e k \<le> range_end e k \<longrightarrow>
        get_local_sample_index e (range_start e k) = Inr 0
        \<and> get_local_sample_index e (range_end e k) = Inr (range_end e k - range_start e k))"
proof -
  have one: "\<exists>k < length (encoded e).
         getitem e i = Inr (chunk_id_of (encoded e ! k), k)
         \<and> get_local_sample_index e i =
             Inr (if k = 0 then i else i - (uint (last_index_of (encoded e ! (k - 1))) + 1))"
    if v: "0 \<le> i \<and> i < num_samples e"
  proof -
    from v have "0 \<le> i" "i < num_samples e" by simp_all
    note g = getitem_valid [OF this]
    let ?r = "searchsorted (last_index_column e) i"
    from g have "get_local_sample_index e i =
        Inr (if ?r = 0 then i else i - (uint (last_index_of (encoded e ! (?r - 1))) + 1))"
      by (simp add: get_local_sample_index_def Let_def)
    with g show ?thesis by blast
  qed
  have local: "get_local_sample_index e j = Inr (j - range_start e k)"
    if "ascending e" "k < length (encoded e)" "range_start e k \<le> j" "j \<le> range_end e k" for j
    using getitem_row [OF that]
    by (simp add: get_local_sample_index_def range_start_def Let_def)
  have two: "get_local_sample_index e (range_start e k) = Inr 0
        \<and> get_local_sample_index e (range_end e k) = Inr (range_end e k - range_start e k)"
    if w: "ascending e \<and> k < length (encoded e) \<and> range_start e k \<le> range_end e k"
  proof -
    from w have a: "ascending e" and b: "k < length (encoded e)"
      and c: "range_start e k \<le> range_end e k" by simp_all
    have "get_local_sample_index e (range_start e k) = Inr (range_start e k - range_start e k)"
      by (rule local [OF a b _ c]) simp
    moreover have "get_local_sample_index e (range_end e k) = Inr (range_end e k - range_start e k)"
      by (rule local [OF a b c]) simp
    ultimately show ?thesis by simp
  qed
  from one two show ?thesis by blast
qed

theorem get_local_sample_index_rows_witness:
  "(0::int) \<le> 12 \<and> 12 < num_samples \<lparr>encoded = [(7, 9), (9, 14)]\<rparr>
   \<and> ascending \<lparr>encoded = [(7, 9), (9, 14)]\<rparr>
   \<and> 1 < length (encoded \<lparr>encoded = [(7, 9), (9, 14)]\<rparr>)
   \<and> range_start \<lparr>encoded = [(7, 9), (9, 14)]\<rparr> 1 = 10
   \<and> range_end \<lparr>encoded = [(7, 9), (9, 14)]\<rparr> 1 = 14
   \<and> get_local_sample_index \<lparr>encoded = [(7, 9), (9, 14)]\<rparr> 12 = Inr 2
   \<and> get_local_sample_index \<lparr>encoded = [(7, 9), (9, 14)]\<rparr> 10 = Inr 0
   \<and> get_local_sample_index \<lparr>encoded = [(7, 9), (9, 14)]\<rparr> 14 = Inr 4"
proof -
  let ?e = "\<lparr>encoded = [(7, 9), (9, 14)]\<rparr>"
  have n: "num_samples ?e = 15"
    by (simp add: num_samples_def last_index_of_def)
  have a: "ascending ?e"
    by (simp add: ascending_def last_index_column_def last_index_of_def)
  have s: "range_start ?e 1 = 10" and t: "range_end ?e 1 = 14"
    by (simp_all add: range_start_def range_end_def last_index_of_def)
  have v: "get_local_sample_index ?e 12 = Inr 2"
    by code_simp
  from get_local_sample_index_rows [of 12 ?e 1] n a s t v
  show ?thesis by simp
qed

subsection \<open>Names and ids\<close>

lemma digit_value_hex_digit: "d < 16 \<Longrightarrow> digit_value (hex_digit d) = Some d"
  by (simp add: digit_value_def hex_digit_def Let_def)

lemma hex_digit_not_underscore: "d < 16 \<Longrightarrow> hex_digit d \<noteq> CHR ''_''"
proof
  assume "d < 16" and "hex_digit d = CHR ''_''"
  then have "(of_char (hex_digit d) :: nat) = of_char CHR ''_''" by simp
  with \<open>d < 16\<close> show False by (simp add: hex_digit_def split: if_splits)
qed

lemma hex_digit_not_space: "d < 16 \<Longrightarrow> \<not> py_isspace (hex_digit d)"
  by (simp add: py_isspace_def hex_digit_def Let_def)

lemma hex_nat_not_Nil: "hex_nat n \<noteq> []"
  by (subst hex_nat.simps) simp

lemma hd_hex_nat: "\<exists>d < 16. hd (hex_nat n) = hex_digit d"
proof (induction n rule: hex_nat.induct)
  case (1 n)
  show ?case
  proof (cases "n < 16")
    case True
    then show ?thesis by (subst hex_nat.simps) auto
  next
    case False
    have "hd (hex_nat n) = hd (hex_nat (n div 16))"
      using False hex_nat_not_Nil [of "n div 16"] by (subst hex_nat.simps) simp
    with "1.IH" [OF False] show ?thesis by simp
  qed
qed

lemma last_hex_nat: "last (hex_nat n) = hex_digit (n mod 16)"
  by (subst hex_nat.simps) simp

lemma scan_digits_hex_nat:
  "scan_digits False acc (hex_nat n @ rest)
     = scan_digits False (acc * 16 ^ length (hex_nat n) + n) rest"
proof (induction n arbitrary: acc rest rule: hex_nat.induct)
  case (1 n)
  show ?case
  proof (cases "n < 16")
    case True
    then have h: "hex_nat n = [hex_digit n]" by (subst hex_nat.simps) simp
    show ?thesis
      using True by (simp add: h digit_value_hex_digit hex_digit_not_underscore mult.commute)
  next
    case False
    have h: "hex_nat n = hex_nat (n div 16) @ [hex_digit (n mod 16)]"
      using False by (subst hex_nat.simps) simp
    have d: "n mod 16 < 16" by simp
    have "scan_digits False acc (hex_nat n @ rest)
        = scan_digits False acc (hex_nat (n div 16) @ (hex_digit (n mod 16) # rest))"
      by (simp add: h)
    also have "\<dots> = scan_digits False (acc * 16 ^ length (hex_nat (n div 16)) + n div 16)
        (hex_digit (n mod 16) # rest)"
      by (rule "1.IH" [OF False])
    also have "\<dots> = scan_digits False
        (16 * (acc * 16 ^ length (hex_nat (n div 16)) + n div 16) + n mod 16) rest"
      using d by (simp add: digit_value_hex_digit hex_digit_not_underscore)
    also have "16 * (acc * 16 ^ length (hex_nat (n div 16)) + n div 16) + n mod 16
        = acc * 16 ^ length (hex_nat n) + n"
      by (simp add: h algebra_simps)
    finally show ?thesis .
  qed
qed

lemma scan_digits_hex_nat_all: "scan_digits False 0 (hex_nat n) = Some n"
  using scan_digits_hex_nat [of 0 n "[]"] by simp

lemma py_strip_hex: "py_strip (''0x'' @ hex_nat n) = ''0x'' @ hex_nat n"
proof -
  have a: "\<not> py_isspace CHR ''0''" by (simp add: py_isspace_def)
  have "\<not> py_isspace (last (hex_nat n))"
    by (simp add: last_hex_nat hex_digit_not_space)
  then have "\<not> py_isspace (hd (rev (''0x'' @ hex_nat n)))"
    using hex_nat_not_Nil [of n] by (simp add: hd_rev)
  then have "dropWhile py_isspace (rev (''0x'' @ hex_nat n)) = rev (''0x'' @ hex_nat n)"
    by (simp only: dropWhile_eq_self_iff) simp
  moreover have "dropWhile py_isspace (''0x'' @ hex_nat n) = ''0x'' @ hex_nat n"
    using a by simp
  ultimately show ?thesis by (simp only: py_strip_def rev_rev_ident)
qed

lemma int_base16_hex: "int_base16 (''0x'' @ hex_nat n) = Inr (int n)"
proof -
  obtain c cs where cs: "hex_nat n = c # cs"
    using hex_nat_not_Nil [of n] by (cases "hex_nat n") auto
  from hd_hex_nat [of n] cs obtain d where "d < 16" "c = hex_digit d" by auto
  then have u: "c \<noteq> CHR ''_''" by (simp add: hex_digit_not_underscore)
  have s: "skip_sign (''0x'' @ hex_nat n) = (False, ''0x'' @ hex_nat n)"
    by (simp add: skip_sign_def)
  have p: "skip_prefix (''0x'' @ hex_nat n) = hex_nat n"
    using u by (simp add: skip_prefix_def cs)
  have "scan_digits False 0 (c # cs) = Some n"
    using scan_digits_hex_nat_all [of n] by (simp only: cs)
  then show ?thesis
    unfolding int_base16_def py_strip_hex s p prod.case Let_def
    using u by (simp add: cs del: scan_digits.simps)
qed

lemma name_from_id_nat: "name_from_id (int n) = hex_nat n"
  by (simp add: name_from_id_def hex_def)

text \<open>
  C5, as stated: the two conversions are inverse to each other, for every 64-bit id and
  for every name. The second half fails: \<^verbatim>\<open>id_from_name\<close> accepts names that
  \<^verbatim>\<open>name_from_id\<close> never produces, such as \<^verbatim>\<open>0f\<close> and \<^verbatim>\<open>FF\<close>, and the
  name of their id is \<^verbatim>\<open>f\<close> and \<^verbatim>\<open>ff\<close>; for a name that is no number, such as
  \<^verbatim>\<open>xyz\<close>, it raises.
\<close>

theorem name_id_roundtrip_counterexample:
  "id_from_name ''0f'' = Inr 15 \<and> name_from_id 15 = ''f'' \<and> ''f'' \<noteq> ''0f''
   \<and> id_from_name ''FF'' = Inr 255 \<and> name_from_id 255 = ''ff'' \<and> ''ff'' \<noteq> ''FF''
   \<and> id_from_name ''xyz'' = Inl ValueError"
proof -
  have a: "id_from_name ''0f'' = Inr 15" by code_simp
  have b: "name_from_id 15 = ''f''" by code_simp
  have c: "''f'' \<noteq> ''0f''" by simp
  have d: "id_from_name ''FF'' = Inr 255" by code_simp
  have e: "name_from_id 255 = ''ff''" by code_simp
  have f: "''ff'' \<noteq> ''FF''" by simp
  have g: "id_from_name ''xyz'' = Inl ValueError" by code_simp
  from a b c d e f g show ?thesis by blast
qed

text \<open>
  C5, amended: for every 64-bit id, \<^verbatim>\<open>id_from_name(name_from_id(id))\<close> is the id, and
  for every name that \<^verbatim>\<open>name_from_id\<close> generates from a 64-bit id,
  \<^verbatim>\<open>name_from_id(id_from_name(name))\<close> is the name.
\<close>

theorem name_id_roundtrip:
  "id_from_name (name_from_id (uint (w :: dtype))) = Inr (uint w)
   \<and> map_sum (\<lambda>err. err) name_from_id (id_from_name (name_from_id (uint w)))
       = Inr (name_from_id (uint w))"
proof -
  have u: "uint w = int (unat w)" by simp
  have "id_from_name (name_from_id (int (unat w))) = Inr (int (unat w))"
    by (simp only: name_from_id_nat id_from_name_def int_base16_hex)
  then have "id_from_name (name_from_id (uint w)) = Inr (uint w)"
    by (simp only: u)
  then show ?thesis by simp
qed

theorem name_id_roundtrip_witness:
  "id_from_name (name_from_id (uint (255 :: dtype))) = Inr 255
   \<and> name_from_id (uint (255 :: dtype)) = ''ff''"
proof -
  have "name_from_id (uint (255 :: dtype)) = ''ff''" by code_simp
  with name_id_roundtrip [of 255] show ?thesis by simp
qed

subsection \<open>Serialization\<close>

lemma from_le_bytes_le_bytes: "from_le_bytes (le_bytes k v) = v mod 256 ^ k"
proof (induction k arbitrary: v)
  case 0
  then show ?case by simp
next
  case (Suc k)
  have "unat (of_nat (v mod 256) :: byte) = v mod 256"
    by (simp add: unat_of_nat)
  then have "from_le_bytes (le_bytes (Suc k) v) = v mod 256 + 256 * ((v div 256) mod 256 ^ k)"
    by (simp add: Suc.IH)
  also have "\<dots> = v mod 256 ^ Suc k"
    by (simp add: mod_mult2_eq)
  finally show ?case .
qed

lemma length_le_bytes: "length (le_bytes k v) = k"
  by (induction k arbitrary: v) simp_all

lemma int_from_bytes_to_bytes: "int_from_bytes (int_to_bytes w) = w"
proof -
  have "unat w < 256 ^ 8"
    using unsigned_less [of w, where 'a = nat] by simp
  then have "unat w mod 256 ^ 8 = unat w" by simp
  then show ?thesis
    by (simp only: int_from_bytes_def int_to_bytes_def from_le_bytes_le_bytes) simp
qed

lemma length_int_to_bytes: "length (int_to_bytes w) = 8"
  by (simp add: int_to_bytes_def length_le_bytes)

lemma length_row_to_bytes: "length (row_to_bytes r) = 16"
  by (simp add: row_to_bytes_def length_int_to_bytes)

lemma row_from_bytes_to_bytes: "row_from_bytes (row_to_bytes r) = r"
  by (simp add: row_from_bytes_def row_to_bytes_def length_int_to_bytes
      int_from_bytes_to_bytes chunk_id_of_def last_index_of_def)

lemma length_rows_bytes: "length (concat (map row_to_bytes ids)) = 16 * length ids"
  by (induction ids) (simp_all add: length_row_to_bytes)

lemma rows_from_bytes_to_bytes:
  "rows_from_bytes (length ids) (concat (map row_to_bytes ids)) = ids"
  by (induction ids) (simp_all add: length_row_to_bytes row_from_bytes_to_bytes)

lemma deserialize_serialize:
  assumes "length version < 256" and "ids \<noteq> []"
  shows "\<exists>v. deserialize_chunkids (serialize_chunkids version ids) = Inr (v, ids)"
proof -
  let ?body = "concat (map row_to_bytes ids)"
  have n: "unat (of_nat (length version) :: byte) = length version"
    using assms(1) by (simp add: unat_of_nat)
  have s: "serialize_chunkids version ids
      = of_nat (length version) # (map (\<lambda>c. of_nat (of_char c)) version @ ?body)"
    using assms(2) by (simp add: serialize_chunkids_def version_tag_def)
  have d: "drop (length version) (map (\<lambda>c. of_nat (of_char c) :: byte) version @ ?body) = ?body"
    by simp
  have l: "length ?body mod 16 = 0" "length ?body div 16 = length ids"
    by (simp_all add: length_rows_bytes)
  show ?thesis
    unfolding s deserialize_chunkids_def list.case n d Let_def
    by (simp add: l rows_from_bytes_to_bytes)
qed

lemma serialize_not_Nil: "ids \<noteq> [] \<Longrightarrow> serialize_chunkids version ids \<noteq> []"
  by (simp add: serialize_chunkids_def version_tag_def)

lemma frombuffer_tobytes:
  assumes "length version < 256"
  shows "frombuffer (tobytes version e) = Inr e"
proof (cases "encoded e = []")
  case True
  then have "e = new_encoder" by (simp add: new_encoder_def)
  then show ?thesis
    by (simp add: frombuffer_def tobytes_def serialize_chunkids_def new_encoder_def)
next
  case False
  from deserialize_serialize [OF assms False] obtain v
    where d: "deserialize_chunkids (serialize_chunkids version (encoded e)) = Inr (v, encoded e)"
    by blast
  have "new_encoder\<lparr>encoded := encoded e\<rparr> = e"
    by (simp add: new_encoder_def)
  then show ?thesis
    using False serialize_not_Nil [OF False, of version]
    by (simp add: frombuffer_def tobytes_def d nbytes_def)
qed

text \<open>
  C6. Serialization round-trips: for every encoder, \<^verbatim>\<open>frombuffer(tobytes(enc))\<close> is an
  encoder with the rows of \<^verbatim>\<open>enc\<close>; an empty encoder serializes to an empty buffer, and
  \<^verbatim>\<open>frombuffer\<close> of an empty buffer is an empty encoder. The version string has to fit
  the one length byte of the tag.
\<close>

theorem serialization_roundtrip:
  assumes "length version < 256"
  shows "frombuffer (tobytes version e) = Inr e
       \<and> tobytes version new_encoder = []
       \<and> frombuffer [] = Inr new_encoder
       \<and> encoded new_encoder = []"
proof -
  have empty: "tobytes version new_encoder = []"
    by (simp add: tobytes_def serialize_chunkids_def new_encoder_def)
  have from_empty: "frombuffer [] = Inr new_encoder"
    by (simp add: frombuffer_def)
  have rt: "frombuffer (tobytes version e) = Inr e"
    using assms by (rule frombuffer_tobytes)
  from rt empty from_empty show ?thesis by (simp add: new_encoder_def)
qed

theorem serialization_roundtrip_witness:
  "length ''2.0.4'' < 256
   \<and> frombuffer (tobytes ''2.0.4'' \<lparr>encoded = [(7, 9), (9, 10)]\<rparr>) = Inr \<lparr>encoded = [(7, 9), (9, 10)]\<rparr>
   \<and> tobytes ''2.0.4'' new_encoder = []"
proof -
  have h: "length ''2.0.4'' < 256" by simp
  from serialization_roundtrip [OF h, of "\<lparr>encoded = [(7, 9), (9, 10)]\<rparr>"] h
  show ?thesis by blast
qed

subsection \<open>The order of the bounds\<close>

lemma sorted_snoc_iff: "sorted (xs @ [y]) \<longleftrightarrow> sorted xs \<and> (\<forall>x \<in> set xs. x \<le> (y::int))"
  by (auto simp: sorted_append)

lemma sorted_le_last:
  assumes "sorted xs" and "x \<in> set xs"
  shows "x \<le> (last xs :: int)"
proof -
  from assms(2) have ne: "xs \<noteq> []" by auto
  then have "xs = butlast xs @ [last xs]" by simp
  with assms(1) have "sorted (butlast xs @ [last xs])" by simp
  then have "\<forall>y \<in> set (butlast xs). y \<le> last xs"
    by (auto simp only: sorted_snoc_iff)
  moreover from assms(2) ne have "x \<in> set (butlast xs) \<or> x = last xs"
    by (metis append_butlast_last_id in_set_conv_decomp_last butlast_snoc last_snoc
        Un_iff insert_iff list.set(2) set_append empty_iff list.set(1))
  ultimately show ?thesis by auto
qed

lemma last_index_column_generate:
  "last_index_column (snd (generate_chunk_id e uuid)) =
     (if encoded e = [] then [uint (ENCODING_DTYPE (- 1))]
      else last_index_column e @ [last (last_index_column e)])"
  by (simp add: last_index_column_def generate_chunk_id_rows last_index_of_def last_map)

lemma last_index_column_register:
  assumes "fst (register_samples e n) = None"
  shows "0 \<le> n \<and> encoded e \<noteq> []
       \<and> last_index_column (snd (register_samples e n)) =
           butlast (last_index_column e)
           @ [uint (last_index_of (last (encoded e)) + ENCODING_DTYPE n)]"
proof -
  from assms have v: "validate_incoming_item e n = None"
    by (simp add: register_samples_eq split: option.splits)
  then have "0 \<le> n" "encoded e \<noteq> []"
    by (simp_all add: validate_incoming_item_eq split: if_splits)
  moreover have "last_index_column (snd (register_samples e n)) =
           butlast (last_index_column e)
           @ [uint (last_index_of (last (encoded e)) + ENCODING_DTYPE n)]"
    by (simp add: register_samples_eq v last_index_column_def last_index_of_def map_butlast)
  ultimately show ?thesis by simp
qed

lemma uint_add_no_wrap:
  assumes "0 \<le> n" and "uint (l :: dtype) + n < 2 ^ 64"
  shows "uint (l + ENCODING_DTYPE n) = uint l + n"
proof -
  have "l + ENCODING_DTYPE n = word_of_int (uint l + n)"
    by (simp add: ENCODING_DTYPE_def)
  then have "uint (l + ENCODING_DTYPE n) = (uint l + n) mod 2 ^ 64"
    by (simp only: uint_word_of_int_64)
  also have "\<dots> = uint l + n"
    using assms by simp
  finally show ?thesis .
qed

text \<open>
  C7, as stated: after every public operation the \<^verbatim>\<open>last_index\<close> values are strictly
  increasing from the first row to the last, without duplicates. It fails:
  \<^verbatim>\<open>generate_chunk_id\<close> on a table that has samples gives the new row the bound of the
  row before it, so after generating, registering 10 and generating again both rows have
  the bound 9.
\<close>

theorem strictly_ascending_counterexample:
  "fst (run new_encoder [Generate 0, Register 10, Generate (2 ^ 64)]) = None
   \<and> snd (run new_encoder [Generate 0, Register 10, Generate (2 ^ 64)])
       = \<lparr>encoded = [(0, 9), (1, 9)]\<rparr>
   \<and> snd (generate_chunk_id \<lparr>encoded = [(0, 9)]\<rparr> (2 ^ 64)) = \<lparr>encoded = [(0, 9), (1, 9)]\<rparr>
   \<and> \<not> strictly_ascending \<lparr>encoded = [(0, 9), (1, 9)]\<rparr>"
proof -
  have a: "fst (run new_encoder [Generate 0, Register 10, Generate (2 ^ 64)]) = None"
    by code_simp
  have b: "snd (run new_encoder [Generate 0, Register 10, Generate (2 ^ 64)])
       = \<lparr>encoded = [(0, 9), (1, 9)]\<rparr>"
    by code_simp
  have c: "snd (generate_chunk_id \<lparr>encoded = [(0, 9)]\<rparr> (2 ^ 64)) = \<lparr>encoded = [(0, 9), (1, 9)]\<rparr>"
    by code_simp
  have d: "\<not> strictly_ascending \<lparr>encoded = [(0, 9), (1, 9)]\<rparr>"
    by (simp add: strictly_ascending_def last_index_column_def last_index_of_def)
  from a b c d show ?thesis by blast
qed

text \<open>
  C7, amended: the \<^verbatim>\<open>last_index\<close> values, read unsigned, are non-decreasing from the
  first row to the last in a new encoder, and stay so after \<^verbatim>\<open>generate_chunk_id\<close>, after
  a successful \<^verbatim>\<open>register_samples\<close> on a table of one row or whose addition stays
  below \<open>2 ^ 64\<close>, and after \<^verbatim>\<open>frombuffer\<close> of what \<^verbatim>\<open>tobytes\<close> wrote.
\<close>

theorem bounds_ascending:
  "ascending new_encoder
   \<and> (ascending e \<longrightarrow> ascending (snd (generate_chunk_id e uuid)))
   \<and> (ascending e \<and> fst (register_samples e n) = None
        \<and> (length (encoded e) = 1 \<or> uint (last_index_of (last (encoded e))) + n < 2 ^ 64)
      \<longrightarrow> ascending (snd (register_samples e n)))
   \<and> (ascending e \<and> length version < 256
      \<longrightarrow> (\<exists>e'. frombuffer (tobytes version e) = Inr e' \<and> ascending e'))"
proof -
  have new: "ascending new_encoder"
    by (simp add: ascending_def last_index_column_def new_encoder_def)
  have gen: "ascending (snd (generate_chunk_id e uuid))" if a: "ascending e"
  proof (cases "encoded e = []")
    case True
    then show ?thesis by (simp add: ascending_def last_index_column_generate)
  next
    case False
    from a have s: "sorted (last_index_column e)" by (simp add: ascending_def)
    then have "\<forall>x \<in> set (last_index_column e). x \<le> last (last_index_column e)"
      by (simp add: sorted_le_last)
    with s have "sorted (last_index_column e @ [last (last_index_column e)])"
      by (auto simp only: sorted_snoc_iff)
    with False show ?thesis by (simp add: ascending_def last_index_column_generate)
  qed
  have reg: "ascending (snd (register_samples e n))"
    if h: "ascending e \<and> fst (register_samples e n) = None
        \<and> (length (encoded e) = 1 \<or> uint (last_index_of (last (encoded e))) + n < 2 ^ 64)"
  proof -
    let ?a = "last_index_column e"
    let ?y = "uint (last_index_of (last (encoded e)) + ENCODING_DTYPE n)"
    from h have s: "sorted ?a" by (simp add: ascending_def)
    from h last_index_column_register [of e n]
    have n: "0 \<le> n" and ne: "encoded e \<noteq> []"
      and col: "last_index_column (snd (register_samples e n)) = butlast ?a @ [?y]"
      by simp_all
    have ane: "?a \<noteq> []" using ne by (simp add: last_index_column_def)
    have la: "last ?a = uint (last_index_of (last (encoded e)))"
      using ne by (simp add: last_index_column_def last_map)
    from h have "length (encoded e) = 1 \<or> uint (last_index_of (last (encoded e))) + n < 2 ^ 64"
      by simp
    then have "sorted (butlast ?a @ [?y])"
    proof
      assume "length (encoded e) = 1"
      then have "length ?a = 1" by (simp add: length_last_index_column)
      then have "butlast ?a = []" by (cases ?a) simp_all
      then show ?thesis by simp
    next
      assume "uint (last_index_of (last (encoded e))) + n < 2 ^ 64"
      with n have "?y = last ?a + n" by (simp add: uint_add_no_wrap la)
      with n have le: "last ?a \<le> ?y" by simp
      have "\<forall>x \<in> set (butlast ?a). x \<le> last ?a"
        using s by (auto dest: in_set_butlastD simp: sorted_le_last)
      with le have "\<forall>x \<in> set (butlast ?a). x \<le> ?y" by auto
      moreover have "sorted (butlast ?a)" using s by (rule sorted_butlast)
      ultimately show ?thesis by (auto simp only: sorted_snoc_iff)
    qed
    then show ?thesis by (simp add: ascending_def col)
  qed
  have ser: "\<exists>e'. frombuffer (tobytes version e) = Inr e' \<and> ascending e'"
    if h: "ascending e \<and> length version < 256"
  proof -
    from h have "frombuffer (tobytes version e) = Inr e"
      by (simp add: frombuffer_tobytes)
    with h show ?thesis by simp
  qed
  from new gen reg ser show ?thesis by blast
qed

theorem bounds_ascending_witness:
  "ascending \<lparr>encoded = [(7, 9), (9, 10)]\<rparr>
   \<and> fst (register_samples \<lparr>encoded = [(7, 9), (9, 10)]\<rparr> 5) = None
   \<and> uint (last_index_of (last (encoded \<lparr>encoded = [(7, 9), (9, 10)]\<rparr>))) + 5 < 2 ^ 64
   \<and> length ''2.0.4'' < 256
   \<and> ascending (snd (generate_chunk_id \<lparr>encoded = [(7, 9), (9, 10)]\<rparr> 0))
   \<and> ascending (snd (register_samples \<lparr>encoded = [(7, 9), (9, 10)]\<rparr> 5))
   \<and> (\<exists>e'. frombuffer (tobytes ''2.0.4'' \<lparr>encoded = [(7, 9), (9, 10)]\<rparr>) = Inr e' \<and> ascending e')"
proof -
  let ?e = "\<lparr>encoded = [(7, 9), (9, 10)]\<rparr>"
  have a: "ascending ?e"
    by (simp add: ascending_def last_index_column_def last_index_of_def)
  have r: "fst (register_samples ?e 5) = None"
    by code_simp
  have u: "uint (last_index_of (last (encoded ?e))) + 5 < 2 ^ 64"
    by (simp add: last_index_of_def)
  have l: "length ''2.0.4'' < 256" by simp
  from bounds_ascending [of ?e 0 5 "''2.0.4''"] a r u l show ?thesis by blast
qed

subsection \<open>Registration: validation\<close>

text \<open>
  C2. \<^verbatim>\<open>register_samples(count)\<close> raises exactly when the count is negative (a
  ValueError), or the table is empty, or the count is zero while fewer than two chunks
  exist (a ChunkIdEncoderError in both cases); whenever it raises, the encoder is left as
  it was.
\<close>

theorem register_samples_raises_iff:
  "fst (register_samples e n) =
     (if n < 0 then Some ValueError
      else if encoded e = [] \<or> (n = 0 \<and> num_chunks e < 2) then Some ChunkIdEncoderError
      else None)
   \<and> (fst (register_samples e n) \<noteq> None \<longrightarrow> snd (register_samples e n) = e)"
  by (simp add: register_samples_eq validate_incoming_item_eq num_chunks_length)

theorem register_samples_raises_iff_witness:
  "fst (register_samples new_encoder 5) = Some ChunkIdEncoderError
   \<and> fst (register_samples new_encoder 5) \<noteq> None
   \<and> snd (register_samples new_encoder 5) = new_encoder"
  using register_samples_raises_iff [of new_encoder 5] by (simp add: new_encoder_def)

subsection \<open>Registration: overflow of the bound\<close>



subsection \<open>Registration of zero samples\<close>

text \<open>
  C9. For every encoder with at least two chunks, \<^verbatim>\<open>register_samples(0)\<close> succeeds and
  changes nothing: the rows, and with them \<^verbatim>\<open>num_samples\<close> and \<^verbatim>\<open>num_chunks\<close>, are
  after the call what they were before.
\<close>

theorem register_zero_identity:
  assumes "2 \<le> num_chunks e"
  shows "register_samples e 0 = (None, e)
       \<and> encoded (snd (register_samples e 0)) = encoded e
       \<and> num_samples (snd (register_samples e 0)) = num_samples e
       \<and> num_chunks (snd (register_samples e 0)) = num_chunks e"
proof -
  from assms have len: "2 \<le> length (encoded e)"
    by (simp add: num_chunks_length)
  then have ne: "encoded e \<noteq> []" by auto
  have v: "validate_incoming_item e 0 = None"
    using len ne by (simp add: validate_incoming_item_eq)
  have "butlast (encoded e) @
      [(chunk_id_of (last (encoded e)), last_index_of (last (encoded e)) + ENCODING_DTYPE 0)]
    = encoded e"
    using ne by (simp add: chunk_id_of_def last_index_of_def ENCODING_DTYPE_def)
  then have "register_samples e 0 = (None, e)"
    by (simp add: register_samples_eq v)
  then show ?thesis by simp
qed

theorem register_zero_identity_witness:
  "2 \<le> num_chunks \<lparr>encoded = [(7, 9), (9, 10)]\<rparr>
   \<and> register_samples \<lparr>encoded = [(7, 9), (9, 10)]\<rparr> 0 = (None, \<lparr>encoded = [(7, 9), (9, 10)]\<rparr>)"
proof -
  have h: "2 \<le> num_chunks \<lparr>encoded = [(7, 9), (9, 10)]\<rparr>"
    by (simp add: num_chunks_def num_samples_def last_index_of_def)
  from register_zero_identity [OF h] h show ?thesis by simp
qed

subsection \<open>Chunk names by row\<close>

text \<open>
  C10. For every encoder with at least one row, \<^verbatim>\<open>get_name_for_chunk\<close> takes a negative
  index from the end of the table: for \<open>1 \<le> k \<le> num_rows\<close> the name at \<open>- k\<close> is the name
  at \<open>num_rows - k\<close>, the name of that row's id, and the name at \<open>- 1\<close> is that of the last
  row, the chunk generated most recently.
\<close>

theorem get_name_for_chunk_negative:
  assumes "encoded e \<noteq> []" and "1 \<le> k" and "k \<le> int (length (encoded e))"
  shows "get_name_for_chunk e (- k) = get_name_for_chunk e (int (length (encoded e)) - k)
       \<and> get_name_for_chunk e (- k) =
           Inr (name_from_id (uint (chunk_id_of (encoded e ! nat (int (length (encoded e)) - k)))))
       \<and> get_name_for_chunk e (- 1) = Inr (name_from_id (uint (chunk_id_of (last (encoded e)))))"
proof -
  let ?n = "int (length (encoded e))"
  have a: "np_index (map chunk_id_of (encoded e)) (- k)
      = Inr (chunk_id_of (encoded e ! nat (?n - k)))"
    using assms by (simp add: np_index_def)
  have b: "np_index (map chunk_id_of (encoded e)) (?n - k)
      = Inr (chunk_id_of (encoded e ! nat (?n - k)))"
    using assms by (simp add: np_index_def)
  have "0 < length (encoded e)" using assms(1) by simp
  then have c: "np_index (map chunk_id_of (encoded e)) (- 1) = Inr (chunk_id_of (last (encoded e)))"
    using assms(1) by (simp add: np_index_def last_conv_nth nat_diff_distrib' Suc_le_eq)
  show ?thesis by (simp add: get_name_for_chunk_def a b c)
qed

theorem get_name_for_chunk_negative_witness:
  "encoded \<lparr>encoded = [(7, 9), (9, 10)]\<rparr> \<noteq> []
   \<and> (1::int) \<le> 2 \<and> 2 \<le> int (length (encoded \<lparr>encoded = [(7, 9), (9, 10)]\<rparr>))
   \<and> get_name_for_chunk \<lparr>encoded = [(7, 9), (9, 10)]\<rparr> (- 2)
       = get_name_for_chunk \<lparr>encoded = [(7, 9), (9, 10)]\<rparr>
           (int (length (encoded \<lparr>encoded = [(7, 9), (9, 10)]\<rparr>)) - 2)
   \<and> get_name_for_chunk \<lparr>encoded = [(7, 9), (9, 10)]\<rparr> (- 2) = Inr ''7''"
proof -
  have h1: "encoded \<lparr>encoded = [(7, 9), (9, 10)]\<rparr> \<noteq> []" by simp
  have h2: "(1::int) \<le> 2" by simp
  have h3: "2 \<le> int (length (encoded \<lparr>encoded = [(7, 9), (9, 10)]\<rparr>))" by simp
  have v: "get_name_for_chunk \<lparr>encoded = [(7, 9), (9, 10)]\<rparr> (- 2) = Inr ''7''"
    by code_simp
  from get_name_for_chunk_negative [OF h1 h2 h3] h1 h2 h3 v show ?thesis by blast
qed

end
